theory Spec2Isabelle
  imports Main "HOL-Library.Word"
begin

unbundle bit_operations_syntax

section \<open>The Nunchuk driver of NunchukO.h\<close>

text \<open>
  The driver is the class template \<^verbatim>\<open>Nunchuk\<close> of \<^verbatim>\<open>src/NunchukO.h\<close>, written
  against the abstract bus interface \<^verbatim>\<open>I2C\<close> of \<^verbatim>\<open>src/I2C.h\<close>.

  Fixed-width C types are words: \<^verbatim>\<open>uint8_t\<close> and \<^verbatim>\<open>int8_t\<close> are \<open>8 word\<close>,
  \<^verbatim>\<open>uint16_t\<close> and \<^verbatim>\<open>int16_t\<close> are \<open>16 word\<close>; a signed one is read with \<open>sint\<close>, an
  unsigned one with \<open>uint\<close> or \<open>unat\<close>. C computes every operator of the file on
  operands promoted to \<^verbatim>\<open>int\<close>, whose width depends on the board (16 bits on AVR, 32 on
  ARM). No intermediate value of the file leaves the range \<open>-512 .. 1023\<close>, so the
  promoted computations are written on \<open>int\<close>, where \<open>NOT\<close>, \<open>AND\<close>, \<open>OR\<close>, \<open>XOR\<close>,
  \<open>push_bit\<close> and \<open>drop_bit\<close> are the two's-complement operations of any width (for a
  negative operand \<open>drop_bit\<close> is the arithmetic shift that gcc implements), and each
  conversion back to a fixed-width type is \<open>word_of_int\<close>, which truncates.

  The development covers \<^verbatim>\<open>decodeByte\<close>, \<^verbatim>\<open>read\<close>, the buttons and the integer
  accessors. \<^verbatim>\<open>init\<close>, the debug printing and the three \<^verbatim>\<open>float\<close> accessors
  (\<^verbatim>\<open>getJoystickAngle\<close>, \<^verbatim>\<open>getPitch\<close>, \<^verbatim>\<open>getRoll\<close>) are left out.
\<close>

type_synonym uint8_t = "8 word"
type_synonym uint16_t = "16 word"
type_synonym int8_t = "8 word"
type_synonym int16_t = "16 word"
type_synonym int32_t = "32 word"

subsection \<open>Constants\<close>

definition NUNCHUK_MESSAGE_SIZE :: int where
  "NUNCHUK_MESSAGE_SIZE = 6"

definition NUNCHUK_ADDRESS :: int where
  "NUNCHUK_ADDRESS = 0x52"

definition NUNCHUK_JOYSTICK_X_ZERO :: int where
  "NUNCHUK_JOYSTICK_X_ZERO = 128"

definition NUNCHUK_JOYSTICK_Y_ZERO :: int where
  "NUNCHUK_JOYSTICK_Y_ZERO = 128"

definition NUNCHUK_ACCEL_X_ZERO :: int where
  "NUNCHUK_ACCEL_X_ZERO = 512"

definition NUNCHUK_ACCEL_Y_ZERO :: int where
  "NUNCHUK_ACCEL_Y_ZERO = 512"

definition NUNCHUK_ACCEL_Z_ZERO :: int where
  "NUNCHUK_ACCEL_Z_ZERO = 512"

subsection \<open>The bus interface\<close>

text \<open>
  \<^verbatim>\<open>class I2C\<close> is pure virtual: a transport is any implementation of its eight
  operations. Here it is a record of functions over the transport's own state \<open>'s\<close>;
  an operation takes the state and returns its result with the state after the call.
  The result of \<^verbatim>\<open>available()\<close> is a C \<^verbatim>\<open>int\<close>, the results of both \<^verbatim>\<open>write\<close> overloads
  are \<^verbatim>\<open>size_t\<close> counts.
\<close>

record 's I2C =
  i2c_setClock :: "int32_t \<Rightarrow> 's \<Rightarrow> 's"
  i2c_start :: "uint8_t \<Rightarrow> 's \<Rightarrow> 's"
  i2c_stop :: "'s \<Rightarrow> 's"
  i2c_write :: "uint8_t \<Rightarrow> 's \<Rightarrow> nat \<times> 's"
  i2c_write_buf :: "uint8_t list \<Rightarrow> 's \<Rightarrow> nat \<times> 's"
  i2c_requestFrom :: "uint8_t \<Rightarrow> uint8_t \<Rightarrow> 's \<Rightarrow> uint8_t \<times> 's"
  i2c_read :: "'s \<Rightarrow> uint8_t \<times> 's"
  i2c_available :: "'s \<Rightarrow> int \<times> 's"

subsection \<open>The driver object\<close>

text \<open>
  The two data members of \<^verbatim>\<open>Nunchuk\<close>: the transport object and the array
  \<^verbatim>\<open>uint8_t m_NunchukData[NUNCHUK_MESSAGE_SIZE]\<close>. The array is a list; that it has six
  elements is a hypothesis wherever it matters, and a store outside of it is an error
  of the model (in C it is undefined behaviour).
\<close>

record 's Nunchuk =
  m_Wire :: 's
  m_NunchukData :: "uint8_t list"

datatype error = IndexOutOfBounds

text \<open>A C++ \<^verbatim>\<open>bool\<close> used as an operand of \<^verbatim>\<open>&\<close> is promoted to 0 or 1.\<close>

definition bool_to_int :: "bool \<Rightarrow> int" where
  "bool_to_int b = (if b then 1 else 0)"

text \<open>
  \<^verbatim>\<open>decodeByte\<close>. The macro \<^verbatim>\<open>NUNCHUK_DISABLE_ENCRYPTION\<close> selects the branch at compile
  time; it is the first argument here (\<open>True\<close> when the macro is defined, which is plain
  mode). The sum is computed on \<^verbatim>\<open>int\<close> and truncated by the \<^verbatim>\<open>uint8_t\<close> return type.
\<close>

definition decodeByte :: "bool \<Rightarrow> uint8_t \<Rightarrow> uint8_t" where
  "decodeByte disable_encryption byte =
     (if disable_encryption then byte
      else word_of_int ((uint byte XOR 0x17) + 0x17))"

text \<open>
  The loop of \<^verbatim>\<open>read()\<close>:
  \<^verbatim>\<open>for(i = 0; i < NUNCHUK_MESSAGE_SIZE && m_Wire.available(); i++)
      m_NunchukData[i] = decodeByte(m_Wire.read());\<close>
  with the counter \<^verbatim>\<open>uint8_t i\<close>. \<^verbatim>\<open>&&\<close> short-circuits: \<^verbatim>\<open>available()\<close> is called only
  when \<open>i < 6\<close>, and its \<^verbatim>\<open>int\<close> result counts as true when it is not 0.
\<close>

function read_loop ::
  "'s I2C \<Rightarrow> bool \<Rightarrow> uint8_t \<Rightarrow> 's Nunchuk \<Rightarrow> error + (uint8_t \<times> 's Nunchuk)"
where
  "read_loop T disable_encryption i n =
     (if uint i < NUNCHUK_MESSAGE_SIZE then
        (case i2c_available T (m_Wire n) of (a, w1) \<Rightarrow>
           if a \<noteq> 0 then
             (case i2c_read T w1 of (b, w2) \<Rightarrow>
                if unat i < length (m_NunchukData n) then
                  read_loop T disable_encryption (i + 1)
                    (n\<lparr>m_Wire := w2,
                       m_NunchukData :=
                         (m_NunchukData n)[unat i := decodeByte disable_encryption b]\<rparr>)
                else Inl IndexOutOfBounds)
           else Inr (i, n\<lparr>m_Wire := w1\<rparr>))
      else Inr (i, n))"
  by pat_completeness auto
termination
proof (relation "measure (\<lambda>(T, e, i, n). 6 - unat i)")
  show "wf (measure (\<lambda>(T, e, i, n). 6 - unat i))"
    by simp
next
  fix T :: "'s I2C" and e :: bool and i :: uint8_t and n :: "'s Nunchuk"
    and a w1 b w2
  assume "uint i < NUNCHUK_MESSAGE_SIZE"
  then have lt: "unat i < 6"
    by (simp add: NUNCHUK_MESSAGE_SIZE_def uint_nat del: of_nat_unat)
  then have "unat (i + 1) = unat i + 1"
    by (simp add: unat_word_ariths)
  with lt show "((T, e, i + 1,
        n\<lparr>m_Wire := w2, m_NunchukData := (m_NunchukData n)[unat i := decodeByte e b]\<rparr>),
       T, e, i, n) \<in> measure (\<lambda>(T, e, i, n). 6 - unat i)"
    by simp
qed

declare read_loop.simps [simp del]

text \<open>
  \<^verbatim>\<open>read()\<close>: the request for six bytes, the loop, the re-arm write, and the result
  \<^verbatim>\<open>i == 6\<close>. The value returned by \<^verbatim>\<open>requestFrom\<close> and by \<^verbatim>\<open>write\<close> is dropped, as in
  the source.
\<close>

definition read :: "'s I2C \<Rightarrow> bool \<Rightarrow> 's Nunchuk \<Rightarrow> error + (bool \<times> 's Nunchuk)" where
  "read T disable_encryption n =
     (case i2c_requestFrom T (word_of_int NUNCHUK_ADDRESS) (word_of_int NUNCHUK_MESSAGE_SIZE)
             (m_Wire n) of
        (r, w0) \<Rightarrow>
          (case read_loop T disable_encryption 0 (n\<lparr>m_Wire := w0\<rparr>) of
             Inl e \<Rightarrow> Inl e
           | Inr (i, n1) \<Rightarrow>
               (case i2c_write T 0x00 (i2c_start T (word_of_int NUNCHUK_ADDRESS) (m_Wire n1)) of
                  (c, w2) \<Rightarrow> Inr (uint i = 6, n1\<lparr>m_Wire := i2c_stop T w2\<rparr>))))"

text \<open>
  The buttons. \<^verbatim>\<open>==\<close> binds tighter than \<^verbatim>\<open>&\<close>, so
  \<^verbatim>\<open>(~m_NunchukData[5] >> 0) & 1 == 1\<close> is \<^verbatim>\<open>(~m_NunchukData[5] >> 0) & (1 == 1)\<close>; the
  \<^verbatim>\<open>int\<close> that results is converted to \<^verbatim>\<open>bool\<close> by the return (not 0 is true).
\<close>

definition getButtonZ :: "'s Nunchuk \<Rightarrow> bool" where
  "getButtonZ n =
     (drop_bit 0 (NOT (uint (m_NunchukData n ! 5))) AND bool_to_int ((1 :: int) = 1) \<noteq> 0)"

definition getButtonC :: "'s Nunchuk \<Rightarrow> bool" where
  "getButtonC n =
     (drop_bit 1 (NOT (uint (m_NunchukData n ! 5))) AND bool_to_int ((1 :: int) = 1) \<noteq> 0)"

text \<open>The raw readings (the private inline functions).\<close>

definition getJoystickRawX :: "'s Nunchuk \<Rightarrow> uint8_t" where
  "getJoystickRawX n = m_NunchukData n ! 0"

definition getJoystickRawY :: "'s Nunchuk \<Rightarrow> uint8_t" where
  "getJoystickRawY n = m_NunchukData n ! 1"

definition getAccelRawX :: "'s Nunchuk \<Rightarrow> uint16_t" where
  "getAccelRawX n =
     word_of_int (push_bit 2 (uint (ucast (m_NunchukData n ! 2) :: uint16_t))
                    OR (drop_bit 2 (uint (m_NunchukData n ! 5)) AND 3))"

definition getAccelRawY :: "'s Nunchuk \<Rightarrow> uint16_t" where
  "getAccelRawY n =
     word_of_int (push_bit 2 (uint (ucast (m_NunchukData n ! 3) :: uint16_t))
                    OR (drop_bit 4 (uint (m_NunchukData n ! 5)) AND 3))"

definition getAccelRawZ :: "'s Nunchuk \<Rightarrow> uint16_t" where
  "getAccelRawZ n =
     word_of_int (push_bit 2 (uint (ucast (m_NunchukData n ! 4) :: uint16_t))
                    OR (drop_bit 6 (uint (m_NunchukData n ! 5)) AND 3))"

text \<open>
  The calibrated readings. \<^verbatim>\<open>(int16_t) x\<close> of an unsigned value is the same word read
  with \<open>sint\<close>; the difference is computed on \<^verbatim>\<open>int\<close> and converted to the return type.
\<close>

definition getJoystickY :: "'s Nunchuk \<Rightarrow> int8_t" where
  "getJoystickY n =
     word_of_int (sint (ucast (getJoystickRawY n) :: int16_t) - NUNCHUK_JOYSTICK_Y_ZERO)"

definition getJoystickX :: "'s Nunchuk \<Rightarrow> int8_t" where
  "getJoystickX n =
     word_of_int (sint (ucast (getJoystickRawX n) :: int16_t) - NUNCHUK_JOYSTICK_X_ZERO)"

definition getAccelX :: "'s Nunchuk \<Rightarrow> int16_t" where
  "getAccelX n =
     word_of_int (sint (getAccelRawX n) - sint (word_of_int NUNCHUK_ACCEL_X_ZERO :: int16_t))"

definition getAccelY :: "'s Nunchuk \<Rightarrow> int16_t" where
  "getAccelY n =
     word_of_int (sint (getAccelRawY n) - sint (word_of_int NUNCHUK_ACCEL_Y_ZERO :: int16_t))"

definition getAccelZ :: "'s Nunchuk \<Rightarrow> int16_t" where
  "getAccelZ n =
     word_of_int (sint (getAccelRawZ n) - sint (word_of_int NUNCHUK_ACCEL_Z_ZERO :: int16_t))"

section \<open>Observing the calls on the bus\<close>

text \<open>
  The claims about \<^verbatim>\<open>read()\<close> speak of the calls that the driver issues. They are
  observed by a recording transport: \<open>traced T\<close> behaves as \<open>T\<close> does and appends every
  call to a trace kept beside the state of \<open>T\<close>. An event carries the arguments of the
  call; \<open>Read\<close> and \<open>Available\<close> carry the value that the call returned. The driver
  itself is not changed: it runs over \<open>traced T\<close> as over any transport, and
  \<open>read_untraced\<close> below shows that forgetting the trace gives the run over \<open>T\<close>.
\<close>

datatype event =
    SetClock int32_t
  | Start uint8_t
  | Stop
  | Write uint8_t
  | WriteBuf "uint8_t list"
  | RequestFrom uint8_t uint8_t
  | Read uint8_t
  | Available int

definition traced :: "'s I2C \<Rightarrow> ('s \<times> event list) I2C" where
  "traced T =
     \<lparr>i2c_setClock = (\<lambda>c (s, tr). (i2c_setClock T c s, tr @ [SetClock c])),
      i2c_start = (\<lambda>a (s, tr). (i2c_start T a s, tr @ [Start a])),
      i2c_stop = (\<lambda>(s, tr). (i2c_stop T s, tr @ [Stop])),
      i2c_write = (\<lambda>d (s, tr). case i2c_write T d s of (c, s') \<Rightarrow> (c, (s', tr @ [Write d]))),
      i2c_write_buf =
        (\<lambda>ds (s, tr). case i2c_write_buf T ds s of (c, s') \<Rightarrow> (c, (s', tr @ [WriteBuf ds]))),
      i2c_requestFrom =
        (\<lambda>a l (s, tr). case i2c_requestFrom T a l s of
                          (c, s') \<Rightarrow> (c, (s', tr @ [RequestFrom a l]))),
      i2c_read = (\<lambda>(s, tr). case i2c_read T s of (b, s') \<Rightarrow> (b, (s', tr @ [Read b]))),
      i2c_available =
        (\<lambda>(s, tr). case i2c_available T s of (a, s') \<Rightarrow> (a, (s', tr @ [Available a])))\<rparr>"

definition untraced :: "('s \<times> event list) Nunchuk \<Rightarrow> 's Nunchuk" where
  "untraced n = \<lparr>m_Wire = fst (m_Wire n), m_NunchukData = m_NunchukData n\<rparr>"

text \<open>The bytes that the calls of \<^verbatim>\<open>read()\<close> on the transport returned, in order.\<close>

fun reads_of :: "event list \<Rightarrow> uint8_t list" where
  "reads_of [] = []"
| "reads_of (Read b # tr) = b # reads_of tr"
| "reads_of (e # tr) = reads_of tr"

text \<open>
  \<open>loop_trace i tr\<close>: \<open>tr\<close> is the call sequence of the loop entered with \<open>i\<close> bytes
  consumed. While \<open>i < 6\<close> an iteration calls \<^verbatim>\<open>available()\<close>; a result other than 0 is
  followed by one \<^verbatim>\<open>read()\<close> and the next iteration, the result 0 ends the loop; with
  \<open>i = 6\<close> the loop ends without any call.
\<close>

fun loop_trace :: "nat \<Rightarrow> event list \<Rightarrow> bool" where
  "loop_trace i [] = (\<not> i < 6)"
| "loop_trace i [Available a] = (i < 6 \<and> a = 0)"
| "loop_trace i (Available a # Read b # tr) = (i < 6 \<and> a \<noteq> 0 \<and> loop_trace (Suc i) tr)"
| "loop_trace i tr = False"

text \<open>
  \<open>guarded_reads tr\<close>: every \<^verbatim>\<open>read()\<close> of the trace comes directly after an
  \<^verbatim>\<open>available()\<close> that returned a value other than 0.
\<close>

fun guarded_reads :: "event list \<Rightarrow> bool" where
  "guarded_reads [] = True"
| "guarded_reads (Available a # Read b # tr) = (a \<noteq> 0 \<and> guarded_reads tr)"
| "guarded_reads (Read b # tr) = False"
| "guarded_reads (e # tr) = guarded_reads tr"

text \<open>The calls that belong to a write transaction.\<close>

fun is_transmit :: "event \<Rightarrow> bool" where
  "is_transmit (Start a) = True"
| "is_transmit Stop = True"
| "is_transmit (Write d) = True"
| "is_transmit (WriteBuf ds) = True"
| "is_transmit e = False"

text \<open>The re-arm transaction: \<^verbatim>\<open>start(0x52); write(0x00); stop();\<close>\<close>

definition rearm :: "event list" where
  "rearm = [Start 0x52, Write 0x00, Stop]"

text \<open>
  \<open>yields T w bs\<close>: polled from the state \<open>w\<close> as the loop polls it, the transport \<open>T\<close>
  delivers the bytes \<open>bs\<close> and no more. \<^verbatim>\<open>available()\<close> returns a value other than 0
  before each of them, the \<^verbatim>\<open>read()\<close> that follows returns it, and after the last of
  them \<^verbatim>\<open>available()\<close> returns 0.
\<close>

fun yields :: "'s I2C \<Rightarrow> 's \<Rightarrow> uint8_t list \<Rightarrow> bool" where
  "yields T w [] = (fst (i2c_available T w) = 0)"
| "yields T w (b # bs) =
     (fst (i2c_available T w) \<noteq> 0
      \<and> fst (i2c_read T (snd (i2c_available T w))) = b
      \<and> yields T (snd (i2c_read T (snd (i2c_available T w)))) bs)"

text \<open>
  A transport for the worked examples: its state is the queue of bytes that the device
  still delivers. \<^verbatim>\<open>available()\<close> is the length of the queue, \<^verbatim>\<open>read()\<close> takes its
  first byte (and gives \<open>0xFF\<close> on an empty queue, as the \<open>-1\<close> of the Arduino
  \<^verbatim>\<open>Wire.read()\<close> converted to \<^verbatim>\<open>uint8_t\<close>); the write side accepts everything.
\<close>

definition fake_wire :: "uint8_t list I2C" where
  "fake_wire =
     \<lparr>i2c_setClock = (\<lambda>c q. q),
      i2c_start = (\<lambda>a q. q),
      i2c_stop = (\<lambda>q. q),
      i2c_write = (\<lambda>d q. (1, q)),
      i2c_write_buf = (\<lambda>ds q. (length ds, q)),
      i2c_requestFrom = (\<lambda>a l q. (word_of_nat (length q), q)),
      i2c_read = (\<lambda>q. case q of [] \<Rightarrow> (0xFF, []) | b # bs \<Rightarrow> (b, bs)),
      i2c_available = (\<lambda>q. (int (length q), q))\<rparr>"



section \<open>Byte decoding and the accessors\<close>

subsection \<open>Arithmetic of the conversions\<close>

lemma and_one_neq_zero_iff: "(k AND (1::int) \<noteq> 0) = bit k 0"
  by (simp add: and_one_eq mod_2_eq_odd bit_0 flip: even_iff_mod_2_eq_zero)

lemma signed_take_bit_range:
  fixes k :: int
  assumes "l \<le> k" "k < h" "- (2 ^ n) \<le> l" "h \<le> 2 ^ n"
  shows "signed_take_bit n k = k"
  by (rule signed_take_bit_int_eq_self) (use assms in linarith)+

lemma packed_as_nat:
  fixes hi lo :: uint8_t
  shows "push_bit 2 (uint (ucast hi :: uint16_t)) OR (drop_bit k (uint lo) AND 3)
       = int (push_bit 2 (unat hi) OR (drop_bit k (unat lo) AND 3))"
proof -
  have "uint (ucast hi :: uint16_t) = take_bit 16 (uint hi)"
    by (simp add: unsigned_ucast_eq)
  also have "\<dots> = uint hi"
    by (rule take_bit_int_eq_self) (use uint_lt2p [of hi] in simp_all)
  also have "\<dots> = int (unat hi)"
    by (rule uint_nat)
  finally have a: "uint (ucast hi :: uint16_t) = int (unat hi)" .
  have b: "uint lo = int (unat lo)"
    by (rule uint_nat)
  show ?thesis
    by (simp only: a b of_nat_push_bit of_nat_or_eq of_nat_drop_bit of_nat_and_eq
        of_nat_numeral)
qed

lemma packed_bound:
  fixes hi lo :: uint8_t
  shows "push_bit 2 (unat hi) OR (drop_bit k (unat lo) AND 3) < 1024"
proof -
  have "take_bit 10 (push_bit 2 (unat hi) OR (drop_bit k (unat lo) AND 3))
      = push_bit 2 (unat hi) OR (drop_bit k (unat lo) AND 3)"
    by (rule bit_eqI) (auto simp add: bit_simps dest: bit_imp_le_length)
  then have "push_bit 2 (unat hi) OR (drop_bit k (unat lo) AND 3) < 2 ^ 10"
    by (simp only: take_bit_nat_eq_self_iff)
  then show ?thesis by simp
qed

lemma packed_unat:
  fixes hi lo :: uint8_t
  shows "unat (word_of_int (push_bit 2 (uint (ucast hi :: uint16_t))
                              OR (drop_bit k (uint lo) AND 3)) :: uint16_t)
       = push_bit 2 (unat hi) OR (drop_bit k (unat lo) AND 3)"
proof -
  have "push_bit 2 (unat hi) OR (drop_bit k (unat lo) AND 3) < 2 ^ LENGTH(16)"
    using packed_bound [of hi k lo] by simp
  then have "unat (of_nat (push_bit 2 (unat hi) OR (drop_bit k (unat lo) AND 3)) :: uint16_t)
      = push_bit 2 (unat hi) OR (drop_bit k (unat lo) AND 3)"
    by (simp only: unat_of_nat mod_less)
  then show ?thesis
    by (simp only: packed_as_nat of_int_of_nat_eq)
qed

lemma calibrate16:
  fixes raw :: uint16_t
  assumes "unat raw < 1024"
  shows "sint (word_of_int (sint raw - sint (word_of_int 512 :: int16_t)) :: int16_t)
       = int (unat raw) - 512"
proof -
  have u: "uint raw < 1024"
    using assms by (simp add: uint_nat del: of_nat_unat)
  have "sint raw = signed_take_bit 15 (uint raw)"
    by (simp add: sint_uint)
  also have "\<dots> = uint raw"
    by (rule signed_take_bit_range [where l = 0 and h = 1024]) (use u in simp_all)
  finally have s: "sint raw = uint raw" .
  have "sint (word_of_int (uint raw - 512) :: int16_t) = signed_take_bit 15 (uint raw - 512)"
    unfolding sint_sbintrunc' by simp
  also have "\<dots> = uint raw - 512"
    by (rule signed_take_bit_range [where l = "- 512" and h = 512]) (use u in simp_all)
  finally show ?thesis
    by (simp add: s uint_nat del: of_nat_unat)
qed

lemma calibrate8:
  fixes raw :: uint8_t
  shows "sint (word_of_int (sint (ucast raw :: int16_t) - 128) :: int8_t) = uint raw - 128"
proof -
  have u: "uint raw < 256"
    using uint_lt2p [of raw] by simp
  have "sint (ucast raw :: int16_t) = signed_take_bit 15 (uint (ucast raw :: int16_t))"
    by (simp only: sint_uint) simp
  also have "\<dots> = signed_take_bit 15 (uint raw)"
    using u by (simp add: unsigned_ucast_eq take_bit_eq_mod)
  also have "\<dots> = uint raw"
    by (rule signed_take_bit_range [where l = 0 and h = 256]) (use u in simp_all)
  finally have s: "sint (ucast raw :: int16_t) = uint raw" .
  have "sint (word_of_int (uint raw - 128) :: int8_t) = signed_take_bit 7 (uint raw - 128)"
    unfolding sint_sbintrunc' by simp
  also have "\<dots> = uint raw - 128"
    by (rule signed_take_bit_range [where l = "- 128" and h = 128]) (use u in simp_all)
  finally show ?thesis
    by (simp only: s)
qed

lemma button_bit:
  fixes d :: uint8_t
  shows "(drop_bit k (NOT (uint d)) AND bool_to_int ((1 :: int) = 1) \<noteq> 0) = (\<not> bit d k)"
  by (simp add: bool_to_int_def and_one_neq_zero_iff bit_simps)

lemma button_Z_bit: "getButtonZ n = (\<not> bit (m_NunchukData n ! 5) 0)"
  unfolding getButtonZ_def by (rule button_bit)

lemma button_C_bit: "getButtonC n = (\<not> bit (m_NunchukData n ! 5) 1)"
  unfolding getButtonC_def by (rule button_bit)

lemma accel_raw_X:
  "unat (getAccelRawX n)
     = push_bit 2 (unat (m_NunchukData n ! 2)) OR (drop_bit 2 (unat (m_NunchukData n ! 5)) AND 3)"
  by (simp only: getAccelRawX_def packed_unat)

lemma accel_raw_Y:
  "unat (getAccelRawY n)
     = push_bit 2 (unat (m_NunchukData n ! 3)) OR (drop_bit 4 (unat (m_NunchukData n ! 5)) AND 3)"
  by (simp only: getAccelRawY_def packed_unat)

lemma accel_raw_Z:
  "unat (getAccelRawZ n)
     = push_bit 2 (unat (m_NunchukData n ! 4)) OR (drop_bit 6 (unat (m_NunchukData n ! 5)) AND 3)"
  by (simp only: getAccelRawZ_def packed_unat)

lemma accel_raw_bounds:
  "unat (getAccelRawX n) \<le> 1023" "unat (getAccelRawY n) \<le> 1023" "unat (getAccelRawZ n) \<le> 1023"
  using packed_bound [of "m_NunchukData n ! 2" 2 "m_NunchukData n ! 5"]
    packed_bound [of "m_NunchukData n ! 3" 4 "m_NunchukData n ! 5"]
    packed_bound [of "m_NunchukData n ! 4" 6 "m_NunchukData n ! 5"]
  by (simp_all only: accel_raw_X accel_raw_Y accel_raw_Z)

lemma accel_calibrated_X: "sint (getAccelX n) = int (unat (getAccelRawX n)) - 512"
  unfolding getAccelX_def NUNCHUK_ACCEL_X_ZERO_def
  by (rule calibrate16) (use accel_raw_bounds(1) [of n] in simp)

lemma accel_calibrated_Y: "sint (getAccelY n) = int (unat (getAccelRawY n)) - 512"
  unfolding getAccelY_def NUNCHUK_ACCEL_Y_ZERO_def
  by (rule calibrate16) (use accel_raw_bounds(2) [of n] in simp)

lemma accel_calibrated_Z: "sint (getAccelZ n) = int (unat (getAccelRawZ n)) - 512"
  unfolding getAccelZ_def NUNCHUK_ACCEL_Z_ZERO_def
  by (rule calibrate16) (use accel_raw_bounds(3) [of n] in simp)

lemma joystick_X_centred: "sint (getJoystickX n) = uint (m_NunchukData n ! 0) - 128"
  unfolding getJoystickX_def getJoystickRawX_def NUNCHUK_JOYSTICK_X_ZERO_def
  by (rule calibrate8)

lemma joystick_Y_centred: "sint (getJoystickY n) = uint (m_NunchukData n ! 1) - 128"
  unfolding getJoystickY_def getJoystickRawY_def NUNCHUK_JOYSTICK_Y_ZERO_def
  by (rule calibrate8)

lemma decodeByte_as_nat: "decodeByte False b = of_nat ((unat b XOR 0x17) + 0x17)"
proof -
  have h: "(uint b XOR 0x17) + 0x17 = int ((unat b XOR 0x17) + 0x17)"
    by (simp only: uint_nat of_nat_xor_eq of_nat_add of_nat_numeral)
  have "decodeByte False b = word_of_int (int ((unat b XOR 0x17) + 0x17))"
    by (simp only: decodeByte_def if_False h)
  then show ?thesis
    by (simp only: of_int_of_nat_eq)
qed

subsection \<open>The claims about decoding and the accessors\<close>

text \<open>
  Claim C6. In obfuscated mode (the macro \<^verbatim>\<open>NUNCHUK_DISABLE_ENCRYPTION\<close> not defined),
  \<open>decodeByte b\<close> is \<open>((b XOR 0x17) + 0x17) mod 256\<close> for every byte \<open>b\<close>: the sum wraps
  as unsigned 8-bit arithmetic does.
\<close>

theorem decodeByte_obfuscated:
  "unat (decodeByte False b) = ((unat b XOR 0x17) + 0x17) mod 256"
proof -
  have "unat (decodeByte False b) = ((unat b XOR 0x17) + 0x17) mod 2 ^ LENGTH(8)"
    by (simp only: decodeByte_as_nat unat_of_nat)
  then show ?thesis by simp
qed

text \<open>
  Claim C7. In plain mode (the macro \<^verbatim>\<open>NUNCHUK_DISABLE_ENCRYPTION\<close> defined, as both
  headers have it), \<open>decodeByte\<close> is the identity on bytes.
\<close>

theorem decodeByte_plain: "decodeByte True b = b"
  by (simp add: decodeByte_def)

text \<open>
  Claim C3. For every value of frame byte 5, \<open>getButtonZ\<close> is the inverse of bit 0 of
  \<open>m_NunchukData[5]\<close> and \<open>getButtonC\<close> the inverse of bit 1. With byte 5 equal to
  \<open>0b00000000\<close> both return true, with \<open>0b00000011\<close> both return false, whatever the
  other five bytes are. The expressions are parsed as C parses them,
  \<^verbatim>\<open>(~m_NunchukData[5] >> k) & (1 == 1)\<close>.
\<close>

theorem buttons_are_inverted_bits:
  "getButtonZ n = (\<not> bit (m_NunchukData n ! 5) 0)
   \<and> getButtonC n = (\<not> bit (m_NunchukData n ! 5) 1)
   \<and> getButtonZ \<lparr>m_Wire = w, m_NunchukData = [b0, b1, b2, b3, b4, 0x00]\<rparr>
   \<and> getButtonC \<lparr>m_Wire = w, m_NunchukData = [b0, b1, b2, b3, b4, 0x00]\<rparr>
   \<and> \<not> getButtonZ \<lparr>m_Wire = w, m_NunchukData = [b0, b1, b2, b3, b4, 0x03]\<rparr>
   \<and> \<not> getButtonC \<lparr>m_Wire = w, m_NunchukData = [b0, b1, b2, b3, b4, 0x03]\<rparr>"
proof -
  have "\<not> bit (0x00 :: uint8_t) 0" "\<not> bit (0x00 :: uint8_t) 1"
    "bit (0x03 :: uint8_t) 0" "bit (0x03 :: uint8_t) 1"
    by (simp_all add: bit_simps)
  then show ?thesis
    by (simp add: button_Z_bit button_C_bit)
qed

text \<open>
  Claim C4. For every frame the raw acceleration X is
  \<open>(buffer[2] << 2) | ((buffer[5] >> 2) & 3)\<close>, a value of at most 1023; Y and Z are the
  same with bytes 3 and 4 and with bits 4-5 and 6-7 of byte 5; and each calibrated
  acceleration, read as a signed 16-bit value, is the raw value minus 512. With
  \<open>buffer[2] = 0x80\<close> and \<open>buffer[5] = 0b00001100\<close> the raw X is 515 and the calibrated X
  is 3.
\<close>

theorem accel_raw_and_calibrated:
  "unat (getAccelRawX n)
     = push_bit 2 (unat (m_NunchukData n ! 2)) OR (drop_bit 2 (unat (m_NunchukData n ! 5)) AND 3)
   \<and> unat (getAccelRawY n)
     = push_bit 2 (unat (m_NunchukData n ! 3)) OR (drop_bit 4 (unat (m_NunchukData n ! 5)) AND 3)
   \<and> unat (getAccelRawZ n)
     = push_bit 2 (unat (m_NunchukData n ! 4)) OR (drop_bit 6 (unat (m_NunchukData n ! 5)) AND 3)
   \<and> unat (getAccelRawX n) \<le> 1023
   \<and> unat (getAccelRawY n) \<le> 1023
   \<and> unat (getAccelRawZ n) \<le> 1023
   \<and> sint (getAccelX n) = int (unat (getAccelRawX n)) - 512
   \<and> sint (getAccelY n) = int (unat (getAccelRawY n)) - 512
   \<and> sint (getAccelZ n) = int (unat (getAccelRawZ n)) - 512
   \<and> unat (getAccelRawX \<lparr>m_Wire = w, m_NunchukData = [b0, b1, 0x80, b3, b4, 0x0C]\<rparr>) = 515
   \<and> sint (getAccelX \<lparr>m_Wire = w, m_NunchukData = [b0, b1, 0x80, b3, b4, 0x0C]\<rparr>) = 3"
proof -
  let ?m = "\<lparr>m_Wire = w, m_NunchukData = [b0, b1, 0x80, b3, b4, 0x0C]\<rparr>"
  have "unat (getAccelRawX ?m) = push_bit 2 (unat (0x80 :: uint8_t))
      OR (drop_bit 2 (unat (0x0C :: uint8_t)) AND 3)"
    by (simp add: accel_raw_X)
  also have "\<dots> = 515"
    by (simp add: push_bit_eq_mult drop_bit_eq_div)
  finally have raw: "unat (getAccelRawX ?m) = 515" .
  have cal: "sint (getAccelX ?m) = 3"
    by (simp only: accel_calibrated_X raw)
  show ?thesis
    by (intro conjI accel_raw_X accel_raw_Y accel_raw_Z accel_raw_bounds accel_calibrated_X
        accel_calibrated_Y accel_calibrated_Z raw cal)
qed

text \<open>
  Claim C5. For every raw joystick byte \<open>v\<close>, \<open>getJoystickX\<close> on a frame whose byte 0 is
  \<open>v\<close> is exactly \<open>v - 128\<close> as a signed 8-bit value (the narrowing never wraps), and
  \<open>getJoystickY\<close> likewise for byte 1: raw 128 gives 0, raw 0 gives -128 and raw 255
  gives 127.
\<close>

theorem joystick_calibrated:
  "sint (getJoystickX \<lparr>m_Wire = w, m_NunchukData = v # rest\<rparr>) = uint v - 128
   \<and> sint (getJoystickY \<lparr>m_Wire = w, m_NunchukData = b0 # v # rest\<rparr>) = uint v - 128
   \<and> sint (getJoystickX n) = uint (m_NunchukData n ! 0) - 128
   \<and> sint (getJoystickY n) = uint (m_NunchukData n ! 1) - 128
   \<and> sint (getJoystickX \<lparr>m_Wire = w, m_NunchukData = 128 # rest\<rparr>) = 0
   \<and> sint (getJoystickX \<lparr>m_Wire = w, m_NunchukData = 0 # rest\<rparr>) = - 128
   \<and> sint (getJoystickX \<lparr>m_Wire = w, m_NunchukData = 255 # rest\<rparr>) = 127
   \<and> sint (getJoystickY \<lparr>m_Wire = w, m_NunchukData = b0 # 128 # rest\<rparr>) = 0
   \<and> sint (getJoystickY \<lparr>m_Wire = w, m_NunchukData = b0 # 0 # rest\<rparr>) = - 128
   \<and> sint (getJoystickY \<lparr>m_Wire = w, m_NunchukData = b0 # 255 # rest\<rparr>) = 127"
  by (simp add: joystick_X_centred joystick_Y_centred)

section \<open>The frame acquisition cycle\<close>

lemma traced_simps [simp]:
  "i2c_start (traced T) a (s, tr) = (i2c_start T a s, tr @ [Start a])"
  "i2c_stop (traced T) (s, tr) = (i2c_stop T s, tr @ [Stop])"
  "i2c_write (traced T) d (s, tr) = (fst (i2c_write T d s), (snd (i2c_write T d s), tr @ [Write d]))"
  "i2c_requestFrom (traced T) a l (s, tr)
     = (fst (i2c_requestFrom T a l s), (snd (i2c_requestFrom T a l s), tr @ [RequestFrom a l]))"
  "i2c_read (traced T) (s, tr) = (fst (i2c_read T s), (snd (i2c_read T s), tr @ [Read (fst (i2c_read T s))]))"
  "i2c_available (traced T) (s, tr)
     = (fst (i2c_available T s), (snd (i2c_available T s), tr @ [Available (fst (i2c_available T s))]))"
  by (simp_all add: traced_def split: prod.splits)


lemma reads_of_append: "reads_of (xs @ ys) = reads_of xs @ reads_of ys"
  by (induction xs rule: reads_of.induct) simp_all

lemma unat_counter_suc:
  fixes i :: uint8_t
  assumes "unat i < 6"
  shows "unat (i + 1) = Suc (unat i)"
  using assms by (simp add: unat_word_ariths)

lemma uint_counter_lt:
  fixes i :: uint8_t
  shows "(uint i < NUNCHUK_MESSAGE_SIZE) = (unat i < 6)"
  by (simp add: NUNCHUK_MESSAGE_SIZE_def uint_nat del: of_nat_unat)


lemma read_loop_traced:
  assumes "unat i \<le> 6" "length f = 6"
  shows "\<exists>i' w' tr.
           read_loop (traced T) e i \<lparr>m_Wire = (w, tr0), m_NunchukData = f\<rparr>
             = Inr (i',
                    \<lparr>m_Wire = (w', tr0 @ tr),
                     m_NunchukData = take (unat i) f @ map (decodeByte e) (reads_of tr)
                                       @ drop (unat i + length (reads_of tr)) f\<rparr>)
           \<and> loop_trace (unat i) tr
           \<and> unat i' = unat i + length (reads_of tr)
           \<and> unat i' \<le> 6"
  using assms
proof (induction "6 - unat i" arbitrary: i w tr0 f)
  case 0
  then have i6: "unat i = 6" by simp
  then have "read_loop (traced T) e i \<lparr>m_Wire = (w, tr0), m_NunchukData = f\<rparr>
      = Inr (i, \<lparr>m_Wire = (w, tr0), m_NunchukData = f\<rparr>)"
    by (subst read_loop.simps) (simp add: uint_counter_lt)
  with i6 0 show ?case
    by (intro exI [of _ i] exI [of _ w] exI [of _ "[]"]) simp
next
  case (Suc k)
  then have lt: "unat i < 6" by simp
  obtain a w1 where av: "i2c_available T w = (a, w1)"
    by (cases "i2c_available T w")
  show ?case
  proof (cases "a = 0")
    case True
    have "read_loop (traced T) e i \<lparr>m_Wire = (w, tr0), m_NunchukData = f\<rparr>
      = Inr (i, \<lparr>m_Wire = (w1, tr0 @ [Available a]), m_NunchukData = f\<rparr>)"
      using lt av True by (subst read_loop.simps) (simp add: uint_counter_lt)
    with lt True show ?thesis
      by (intro exI [of _ i] exI [of _ w1] exI [of _ "[Available a]"]) simp
  next
    case False
    obtain b w2 where rd: "i2c_read T w1 = (b, w2)"
      by (cases "i2c_read T w1")
    let ?f = "f[unat i := decodeByte e b]"
    have step: "read_loop (traced T) e i \<lparr>m_Wire = (w, tr0), m_NunchukData = f\<rparr>
      = read_loop (traced T) e (i + 1)
          \<lparr>m_Wire = (w2, tr0 @ [Available a, Read b]), m_NunchukData = ?f\<rparr>"
      using lt av rd False Suc.prems
      by (subst read_loop.simps) (simp add: uint_counter_lt)
    have suc: "unat (i + 1) = Suc (unat i)"
      using lt by (rule unat_counter_suc)
    have "k = 6 - unat (i + 1)" "unat (i + 1) \<le> 6" "length ?f = 6"
      using Suc.hyps(2) Suc.prems lt suc by simp_all
    from Suc.hyps(1) [OF this, of w2 "tr0 @ [Available a, Read b]"]
    obtain i' w' tr where
      run: "read_loop (traced T) e (i + 1)
              \<lparr>m_Wire = (w2, tr0 @ [Available a, Read b]), m_NunchukData = ?f\<rparr>
            = Inr (i',
                   \<lparr>m_Wire = (w', (tr0 @ [Available a, Read b]) @ tr),
                    m_NunchukData = take (unat (i + 1)) ?f @ map (decodeByte e) (reads_of tr)
                                      @ drop (unat (i + 1) + length (reads_of tr)) ?f\<rparr>)"
      and lp: "loop_trace (unat (i + 1)) tr"
      and eq: "unat i' = unat (i + 1) + length (reads_of tr)"
      and le: "unat i' \<le> 6"
      by blast
    have tk: "take (Suc (unat i)) ?f = take (unat i) f @ [decodeByte e b]"
      using lt Suc.prems by (simp add: take_Suc_conv_app_nth)
    have dr: "drop (Suc (unat i) + m) ?f = drop (Suc (unat i) + m) f" for m
      by simp
    show ?thesis
      apply (intro exI [of _ i'] exI [of _ w'] exI [of _ "Available a # Read b # tr"])
      using lt False lp le eq
      apply (simp add: step run suc tk dr)
      done
  qed
qed


lemma loop_trace_reads_le:
  "loop_trace i tr \<Longrightarrow> i \<le> 6 \<Longrightarrow> i + length (reads_of tr) \<le> 6"
  by (induction i tr rule: loop_trace.induct) simp_all

lemma loop_trace_no_transmit: "loop_trace i tr \<Longrightarrow> filter is_transmit tr = []"
  by (induction i tr rule: loop_trace.induct) simp_all

lemma loop_trace_guarded: "loop_trace i tr \<Longrightarrow> guarded_reads (tr @ rearm)"
  by (induction i tr rule: loop_trace.induct) (simp_all add: rearm_def)

lemma reads_of_rearm: "reads_of (tr @ rearm) = reads_of tr"
  by (simp add: reads_of_append rearm_def)

lemma read_traced:
  assumes "length f = 6"
  shows "\<exists>w' tr.
           read (traced T) e \<lparr>m_Wire = (w, tr0), m_NunchukData = f\<rparr>
             = Inr (length (reads_of tr) = 6,
                    \<lparr>m_Wire = (w', tr0 @ RequestFrom 0x52 6 # tr @ rearm),
                     m_NunchukData = map (decodeByte e) (reads_of tr)
                                       @ drop (length (reads_of tr)) f\<rparr>)
           \<and> loop_trace 0 tr"
proof -
  obtain c w0 where rq: "i2c_requestFrom T 0x52 6 w = (c, w0)"
    by (cases "i2c_requestFrom T 0x52 6 w")
  have "unat (0 :: uint8_t) \<le> 6"
    by simp
  from read_loop_traced [OF this assms, of T e w0 "tr0 @ [RequestFrom 0x52 6]"]
  obtain i' w1 tr where
    run: "read_loop (traced T) e 0 \<lparr>m_Wire = (w0, tr0 @ [RequestFrom 0x52 6]), m_NunchukData = f\<rparr>
          = Inr (i', \<lparr>m_Wire = (w1, (tr0 @ [RequestFrom 0x52 6]) @ tr),
                      m_NunchukData = map (decodeByte e) (reads_of tr)
                                        @ drop (length (reads_of tr)) f\<rparr>)"
    and lp: "loop_trace 0 tr"
    and eq: "unat i' = length (reads_of tr)"
    by auto
  have six: "(uint i' = 6) = (length (reads_of tr) = 6)"
    using eq by (simp add: uint_nat del: of_nat_unat)
  obtain c2 w2 where wr: "i2c_write T 0 (i2c_start T 0x52 w1) = (c2, w2)"
    by (cases "i2c_write T 0 (i2c_start T 0x52 w1)")
  show ?thesis
    apply (intro exI [of _ "i2c_stop T w2"] exI [of _ tr])
    using lp
    apply (simp add: read_def NUNCHUK_ADDRESS_def NUNCHUK_MESSAGE_SIZE_def rq run six wr rearm_def)
    done
qed

lemma read_loop_untraced:
  "read_loop T e i (untraced n) = map_sum id (map_prod id untraced) (read_loop (traced T) e i n)"
proof (induction "traced T" e i n rule: read_loop.induct)
  case (1 e i n)
  obtain w tr where n: "m_Wire n = (w, tr)"
    by (cases "m_Wire n")
  show ?case
    apply (subst read_loop.simps)
    apply (subst (2) read_loop.simps)
    using 1 n
    apply (auto simp add: untraced_def split: prod.splits)
    done
qed


lemma read_untraced:
  "read T e (untraced n) = map_sum id (map_prod id untraced) (read (traced T) e n)"
proof -
  obtain w tr where n: "m_Wire n = (w, tr)"
    by (cases "m_Wire n")
  obtain c w0 where rq: "i2c_requestFrom T (word_of_int NUNCHUK_ADDRESS)
      (word_of_int NUNCHUK_MESSAGE_SIZE) w = (c, w0)"
    by (cases "i2c_requestFrom T (word_of_int NUNCHUK_ADDRESS)
      (word_of_int NUNCHUK_MESSAGE_SIZE) w")
  let ?n0 = "n\<lparr>m_Wire := (w0, tr @ [RequestFrom (word_of_int NUNCHUK_ADDRESS)
      (word_of_int NUNCHUK_MESSAGE_SIZE)])\<rparr>"
  have u0: "(untraced n)\<lparr>m_Wire := w0\<rparr> = untraced ?n0"
    by (simp add: untraced_def)
  have loop: "read_loop T e 0 (untraced ?n0)
      = map_sum id (map_prod id untraced) (read_loop (traced T) e 0 ?n0)"
    by (rule read_loop_untraced)
  show ?thesis
  proof (cases "read_loop (traced T) e 0 ?n0")
    case (Inl err)
    with loop n rq u0 show ?thesis
      by (simp add: read_def untraced_def)
  next
    case (Inr r)
    obtain i n1 where r: "r = (i, n1)"
      by (cases r)
    obtain w1 tr1 where n1: "m_Wire n1 = (w1, tr1)"
      by (cases "m_Wire n1")
    from loop n rq u0 Inr r n1 show ?thesis
      by (simp add: read_def untraced_def split: prod.splits)
  qed
qed

lemma read_plain_of_traced:
  assumes "read (traced T) e \<lparr>m_Wire = (w, tr0), m_NunchukData = f\<rparr>
             = Inr (ok, \<lparr>m_Wire = (w', tr'), m_NunchukData = d\<rparr>)"
  shows "read T e \<lparr>m_Wire = w, m_NunchukData = f\<rparr>
           = Inr (ok, \<lparr>m_Wire = w', m_NunchukData = d\<rparr>)"
proof -
  have "read T e (untraced \<lparr>m_Wire = (w, tr0), m_NunchukData = f\<rparr>)
      = Inr (ok, untraced \<lparr>m_Wire = (w', tr'), m_NunchukData = d\<rparr>)"
    by (simp only: read_untraced assms) simp
  then show ?thesis
    by (simp add: untraced_def)
qed

lemma read_total:
  assumes "length f = 6"
  shows "\<exists>ok n'. read T e \<lparr>m_Wire = w, m_NunchukData = f\<rparr> = Inr (ok, n')
           \<and> length (m_NunchukData n') = 6"
proof -
  from read_traced [OF assms, of T e w "[]"]
  obtain w' tr where
    run: "read (traced T) e \<lparr>m_Wire = (w, []), m_NunchukData = f\<rparr>
          = Inr (length (reads_of tr) = 6,
                 \<lparr>m_Wire = (w', [] @ RequestFrom 0x52 6 # tr @ rearm),
                  m_NunchukData = map (decodeByte e) (reads_of tr)
                                    @ drop (length (reads_of tr)) f\<rparr>)"
    and lp: "loop_trace 0 tr"
    by blast
  have le: "length (reads_of tr) \<le> 6"
    using loop_trace_reads_le [OF lp] by simp
  from read_plain_of_traced [OF run] le assms show ?thesis
    by simp
qed


lemma read_loop_yields:
  assumes "yields T w bs" "unat i + length bs < 6" "length f = 6"
  shows "\<exists>i' w' tr.
           read_loop (traced T) e i \<lparr>m_Wire = (w, tr0), m_NunchukData = f\<rparr>
             = Inr (i',
                    \<lparr>m_Wire = (w', tr0 @ tr),
                     m_NunchukData = take (unat i) f @ map (decodeByte e) bs
                                       @ drop (unat i + length bs) f\<rparr>)
           \<and> reads_of tr = bs
           \<and> filter is_transmit tr = []
           \<and> unat i' = unat i + length bs"
  using assms
proof (induction bs arbitrary: i w tr0 f)
  case Nil
  then have lt: "unat i < 6" and av: "fst (i2c_available T w) = 0"
    by simp_all
  have "read_loop (traced T) e i \<lparr>m_Wire = (w, tr0), m_NunchukData = f\<rparr>
      = Inr (i, \<lparr>m_Wire = (snd (i2c_available T w), tr0 @ [Available 0]), m_NunchukData = f\<rparr>)"
    using lt av by (subst read_loop.simps) (simp add: uint_counter_lt)
  then show ?case
    by (intro exI [of _ i] exI [of _ "snd (i2c_available T w)"] exI [of _ "[Available 0]"])
      simp
next
  case (Cons b bs)
  then have lt: "unat i < 6"
    by simp
  let ?a = "fst (i2c_available T w)"
  let ?w1 = "snd (i2c_available T w)"
  let ?w2 = "snd (i2c_read T ?w1)"
  let ?f = "f[unat i := decodeByte e b]"
  from Cons.prems(1) have a: "?a \<noteq> 0" and rb: "fst (i2c_read T ?w1) = b"
    and rest: "yields T ?w2 bs"
    by simp_all
  have step: "read_loop (traced T) e i \<lparr>m_Wire = (w, tr0), m_NunchukData = f\<rparr>
      = read_loop (traced T) e (i + 1)
          \<lparr>m_Wire = (?w2, tr0 @ [Available ?a, Read b]), m_NunchukData = ?f\<rparr>"
    using lt a rb Cons.prems(3)
    by (subst read_loop.simps) (simp add: uint_counter_lt)
  have suc: "unat (i + 1) = Suc (unat i)"
    using lt by (rule unat_counter_suc)
  have "unat (i + 1) + length bs < 6" "length ?f = 6"
    using Cons.prems(2,3) suc by simp_all
  from Cons.IH [OF rest this, of "tr0 @ [Available ?a, Read b]"]
  obtain i' w' tr where
    run: "read_loop (traced T) e (i + 1)
              \<lparr>m_Wire = (?w2, tr0 @ [Available ?a, Read b]), m_NunchukData = ?f\<rparr>
            = Inr (i',
                   \<lparr>m_Wire = (w', (tr0 @ [Available ?a, Read b]) @ tr),
                    m_NunchukData = take (unat (i + 1)) ?f @ map (decodeByte e) bs
                                      @ drop (unat (i + 1) + length bs) ?f\<rparr>)"
    and rd: "reads_of tr = bs"
    and tx: "filter is_transmit tr = []"
    and eq: "unat i' = unat (i + 1) + length bs"
    by blast
  have tk: "take (Suc (unat i)) ?f = take (unat i) f @ [decodeByte e b]"
    using lt Cons.prems(3) by (simp add: take_Suc_conv_app_nth)
  show ?case
    apply (intro exI [of _ i'] exI [of _ w'] exI [of _ "Available ?a # Read b # tr"])
    using rd tx eq
    apply (simp add: step run suc tk)
    done
qed

lemma read_yields:
  assumes "length f = 6"
    and "yields T (snd (i2c_requestFrom T 0x52 6 w)) bs"
    and "length bs < 6"
  shows "\<exists>w' tr.
           read (traced T) e \<lparr>m_Wire = (w, tr0), m_NunchukData = f\<rparr>
             = Inr (False,
                    \<lparr>m_Wire = (w', tr0 @ RequestFrom 0x52 6 # tr @ rearm),
                     m_NunchukData = map (decodeByte e) bs @ drop (length bs) f\<rparr>)
           \<and> reads_of tr = bs
           \<and> filter is_transmit tr = []"
proof -
  let ?w0 = "snd (i2c_requestFrom T 0x52 6 w)"
  have "unat (0 :: uint8_t) + length bs < 6"
    using assms(3) by simp
  from read_loop_yields [OF assms(2) this assms(1), of e "tr0 @ [RequestFrom 0x52 6]"]
  obtain i' w1 tr where
    run: "read_loop (traced T) e 0 \<lparr>m_Wire = (?w0, tr0 @ [RequestFrom 0x52 6]), m_NunchukData = f\<rparr>
          = Inr (i', \<lparr>m_Wire = (w1, (tr0 @ [RequestFrom 0x52 6]) @ tr),
                      m_NunchukData = map (decodeByte e) bs @ drop (length bs) f\<rparr>)"
    and rd: "reads_of tr = bs"
    and tx: "filter is_transmit tr = []"
    and eq: "unat i' = length bs"
    by auto
  have six: "uint i' \<noteq> 6"
    using eq assms(3) by (simp add: uint_nat del: of_nat_unat)
  show ?thesis
    apply (intro exI [of _ "i2c_stop T (snd (i2c_write T 0 (i2c_start T 0x52 w1)))"] exI [of _ tr])
    using rd tx six
    apply (simp add: read_def NUNCHUK_ADDRESS_def NUNCHUK_MESSAGE_SIZE_def run rearm_def
        split: prod.splits)
    done
qed



subsection \<open>The claims about the read cycle\<close>

text \<open>
  In the theorems below the driver runs over \<open>traced T\<close> for an arbitrary transport \<open>T\<close>
  in an arbitrary state \<open>w\<close>, the recording starts empty, and the frame \<open>f\<close> is any
  array of six bytes.
\<close>

text \<open>
  Claim C1. For every transport, \<^verbatim>\<open>read()\<close> requests six bytes and then consumes bytes
  one at a time while fewer than six have been consumed and \<^verbatim>\<open>available()\<close> reports a
  byte (\<open>loop_trace 0 tr\<close>; the test of the code is that the \<^verbatim>\<open>int\<close> returned is not 0,
  which for a count of bytes is "at least one"). The decoded bytes are stored at the
  successive indices from 0, the rest of the frame is as before, and the result is
  true exactly when six bytes were obtained; with fewer it is false. The run over
  \<open>T\<close> itself has the same result and the same frame.
\<close>

theorem read_consumes_while_available:
  assumes "length f = 6"
  shows "\<exists>w' tr.
           read (traced T) e \<lparr>m_Wire = (w, []), m_NunchukData = f\<rparr>
             = Inr (length (reads_of tr) = 6,
                    \<lparr>m_Wire = (w', RequestFrom 0x52 6 # tr @ [Start 0x52, Write 0x00, Stop]),
                     m_NunchukData = map (decodeByte e) (reads_of tr)
                                       @ drop (length (reads_of tr)) f\<rparr>)
           \<and> read T e \<lparr>m_Wire = w, m_NunchukData = f\<rparr>
             = Inr (length (reads_of tr) = 6,
                    \<lparr>m_Wire = w',
                     m_NunchukData = map (decodeByte e) (reads_of tr)
                                       @ drop (length (reads_of tr)) f\<rparr>)
           \<and> loop_trace 0 tr
           \<and> length (reads_of tr) \<le> 6"
proof -
  from read_traced [OF assms, of T e w "[]"]
  obtain w' tr where
    run: "read (traced T) e \<lparr>m_Wire = (w, []), m_NunchukData = f\<rparr>
          = Inr (length (reads_of tr) = 6,
                 \<lparr>m_Wire = (w', [] @ RequestFrom 0x52 6 # tr @ rearm),
                  m_NunchukData = map (decodeByte e) (reads_of tr)
                                    @ drop (length (reads_of tr)) f\<rparr>)"
    and lp: "loop_trace 0 tr"
    by blast
  have "length (reads_of tr) \<le> 6"
    using loop_trace_reads_le [OF lp] by simp
  with run read_plain_of_traced [OF run] lp show ?thesis
    by (intro exI [of _ w'] exI [of _ tr]) (simp add: rearm_def)
qed

theorem read_consumes_while_available_witness:
  "length [9, 9, 9, 9, 9, 9 :: uint8_t] = 6
   \<and> (\<exists>w' tr.
         read (traced fake_wire) True \<lparr>m_Wire = ([1, 2, 3], []), m_NunchukData = [9, 9, 9, 9, 9, 9]\<rparr>
           = Inr (length (reads_of tr) = 6,
                  \<lparr>m_Wire = (w', RequestFrom 0x52 6 # tr @ [Start 0x52, Write 0x00, Stop]),
                   m_NunchukData = map (decodeByte True) (reads_of tr)
                                     @ drop (length (reads_of tr)) [9, 9, 9, 9, 9, 9]\<rparr>)
         \<and> read fake_wire True \<lparr>m_Wire = [1, 2, 3], m_NunchukData = [9, 9, 9, 9, 9, 9]\<rparr>
           = Inr (length (reads_of tr) = 6,
                  \<lparr>m_Wire = w',
                   m_NunchukData = map (decodeByte True) (reads_of tr)
                                     @ drop (length (reads_of tr)) [9, 9, 9, 9, 9, 9]\<rparr>)
         \<and> loop_trace 0 tr
         \<and> length (reads_of tr) \<le> 6)"
  using read_consumes_while_available [of "[9, 9, 9, 9, 9, 9]" fake_wire True "[1, 2, 3]"]
  by simp

text \<open>
  Claim C2. For every prior frame \<open>f\<close> and every transport that, after the request,
  yields only the \<open>k < 6\<close> bytes \<open>bs\<close> (\<open>yields\<close>, a hypothesis on the transport and not
  on the run), \<^verbatim>\<open>read()\<close> returns false and leaves the frame
  \<open>map decodeByte bs @ drop k f\<close>: indices \<open>0 .. k-1\<close> hold the decoded new bytes and
  indices \<open>k .. 5\<close> keep their values from before the call. The transport's \<^verbatim>\<open>read()\<close>
  was called for exactly the bytes \<open>bs\<close>, and the re-arm transaction is issued once,
  as the last three calls, with no start, write or stop before it.
\<close>

theorem partial_read_keeps_tail:
  assumes "length f = 6"
    and "yields T (snd (i2c_requestFrom T 0x52 6 w)) bs"
    and "length bs = k"
    and "k < 6"
  shows "\<exists>w' tr.
           read (traced T) e \<lparr>m_Wire = (w, []), m_NunchukData = f\<rparr>
             = Inr (False,
                    \<lparr>m_Wire = (w', RequestFrom 0x52 6 # tr @ [Start 0x52, Write 0x00, Stop]),
                     m_NunchukData = map (decodeByte e) bs @ drop k f\<rparr>)
           \<and> read T e \<lparr>m_Wire = w, m_NunchukData = f\<rparr>
             = Inr (False, \<lparr>m_Wire = w', m_NunchukData = map (decodeByte e) bs @ drop k f\<rparr>)
           \<and> reads_of tr = bs
           \<and> filter is_transmit tr = []
           \<and> take k (map (decodeByte e) bs @ drop k f) = map (decodeByte e) bs
           \<and> drop k (map (decodeByte e) bs @ drop k f) = drop k f
           \<and> length (map (decodeByte e) bs @ drop k f) = 6"
proof -
  have lt: "length bs < 6"
    using assms(3,4) by simp
  from read_yields [OF assms(1,2) lt, of e "[]"]
  obtain w' tr where
    run: "read (traced T) e \<lparr>m_Wire = (w, []), m_NunchukData = f\<rparr>
          = Inr (False,
                 \<lparr>m_Wire = (w', [] @ RequestFrom 0x52 6 # tr @ rearm),
                  m_NunchukData = map (decodeByte e) bs @ drop (length bs) f\<rparr>)"
    and rd: "reads_of tr = bs"
    and tx: "filter is_transmit tr = []"
    by blast
  from run read_plain_of_traced [OF run] rd tx assms show ?thesis
    by (intro exI [of _ w'] exI [of _ tr]) (simp add: rearm_def)
qed

theorem partial_read_keeps_tail_witness:
  "length [9, 9, 9, 9, 9, 9 :: uint8_t] = 6
   \<and> yields fake_wire (snd (i2c_requestFrom fake_wire 0x52 6 [1, 2, 3])) [1, 2, 3]
   \<and> length [1, 2, 3 :: uint8_t] = 3
   \<and> (3 :: nat) < 6
   \<and> (\<exists>w' tr.
         read (traced fake_wire) False
           \<lparr>m_Wire = ([1, 2, 3], []), m_NunchukData = [9, 9, 9, 9, 9, 9]\<rparr>
           = Inr (False,
                  \<lparr>m_Wire = (w', RequestFrom 0x52 6 # tr @ [Start 0x52, Write 0x00, Stop]),
                   m_NunchukData = map (decodeByte False) [1, 2, 3] @ drop 3 [9, 9, 9, 9, 9, 9]\<rparr>)
         \<and> read fake_wire False \<lparr>m_Wire = [1, 2, 3], m_NunchukData = [9, 9, 9, 9, 9, 9]\<rparr>
           = Inr (False,
                  \<lparr>m_Wire = w',
                   m_NunchukData = map (decodeByte False) [1, 2, 3] @ drop 3 [9, 9, 9, 9, 9, 9]\<rparr>)
         \<and> reads_of tr = [1, 2, 3]
         \<and> filter is_transmit tr = [])"
proof -
  have h1: "length [9, 9, 9, 9, 9, 9 :: uint8_t] = 6"
    by simp
  have h2: "yields fake_wire (snd (i2c_requestFrom fake_wire 0x52 6 [1, 2, 3])) [1, 2, 3]"
    by (simp add: fake_wire_def)
  have h3: "length [1, 2, 3 :: uint8_t] = 3"
    by simp
  have h4: "(3 :: nat) < 6"
    by simp
  from partial_read_keeps_tail [OF h1 h2 h3 h4, of False] h1 h2 h3 h4
  show ?thesis
    by simp
qed

text \<open>
  Claim C8. Every invocation of \<^verbatim>\<open>read()\<close>, whether it obtains no byte, some or all
  six, ends with the re-arm transaction \<^verbatim>\<open>start(0x52); write(0x00); stop();\<close> after
  the loop, and issues it once: the calls of the loop before it contain no start, write
  or stop.
\<close>

theorem rearm_exactly_once:
  assumes "length f = 6"
  shows "\<exists>ok w' d tr.
           read (traced T) e \<lparr>m_Wire = (w, []), m_NunchukData = f\<rparr>
             = Inr (ok, \<lparr>m_Wire = (w', RequestFrom 0x52 6 # tr @ [Start 0x52, Write 0x00, Stop]),
                         m_NunchukData = d\<rparr>)
           \<and> filter is_transmit tr = []
           \<and> length (reads_of tr) \<le> 6"
proof -
  from read_traced [OF assms, of T e w "[]"]
  obtain w' tr where
    run: "read (traced T) e \<lparr>m_Wire = (w, []), m_NunchukData = f\<rparr>
          = Inr (length (reads_of tr) = 6,
                 \<lparr>m_Wire = (w', [] @ RequestFrom 0x52 6 # tr @ rearm),
                  m_NunchukData = map (decodeByte e) (reads_of tr)
                                    @ drop (length (reads_of tr)) f\<rparr>)"
    and lp: "loop_trace 0 tr"
    by blast
  have "length (reads_of tr) \<le> 6"
    using loop_trace_reads_le [OF lp] by simp
  with run loop_trace_no_transmit [OF lp] show ?thesis
    by (intro exI [of _ "length (reads_of tr) = 6"] exI [of _ w']
        exI [of _ "map (decodeByte e) (reads_of tr) @ drop (length (reads_of tr)) f"]
        exI [of _ tr]) (simp add: rearm_def)
qed

theorem rearm_exactly_once_witness:
  "length ([] @ [9, 9, 9, 9, 9, 9 :: uint8_t]) = 6
   \<and> (\<exists>ok w' d tr.
         read (traced fake_wire) False \<lparr>m_Wire = ([], []), m_NunchukData = [9, 9, 9, 9, 9, 9]\<rparr>
           = Inr (ok, \<lparr>m_Wire = (w', RequestFrom 0x52 6 # tr @ [Start 0x52, Write 0x00, Stop]),
                       m_NunchukData = d\<rparr>)
         \<and> filter is_transmit tr = []
         \<and> length (reads_of tr) \<le> 6)"
  using rearm_exactly_once [of "[9, 9, 9, 9, 9, 9]" fake_wire False "[]"]
  by simp

text \<open>
  Claim C10. For every transport, also one whose \<^verbatim>\<open>available()\<close> reports arbitrarily
  many bytes, \<^verbatim>\<open>read()\<close> never takes the out-of-bounds branch of the model (it stores
  at indices 0 to 5 only, and the frame keeps its six elements), calls the transport's
  \<^verbatim>\<open>read()\<close> at most six times, and calls it only directly after an \<^verbatim>\<open>available()\<close>
  that returned a value other than 0.
\<close>

theorem read_stays_in_bounds:
  assumes "length f = 6"
  shows "(\<exists>ok n'. read T e \<lparr>m_Wire = w, m_NunchukData = f\<rparr> = Inr (ok, n')
            \<and> length (m_NunchukData n') = 6)
       \<and> (\<exists>ok n'. read (traced T) e \<lparr>m_Wire = (w, []), m_NunchukData = f\<rparr> = Inr (ok, n')
            \<and> length (m_NunchukData n') = 6
            \<and> length (reads_of (snd (m_Wire n'))) \<le> 6
            \<and> guarded_reads (snd (m_Wire n')))"
proof -
  from read_traced [OF assms, of T e w "[]"]
  obtain w' tr where
    run: "read (traced T) e \<lparr>m_Wire = (w, []), m_NunchukData = f\<rparr>
          = Inr (length (reads_of tr) = 6,
                 \<lparr>m_Wire = (w', [] @ RequestFrom 0x52 6 # tr @ rearm),
                  m_NunchukData = map (decodeByte e) (reads_of tr)
                                    @ drop (length (reads_of tr)) f\<rparr>)"
    and lp: "loop_trace 0 tr"
    by blast
  have le: "length (reads_of tr) \<le> 6"
    using loop_trace_reads_le [OF lp] by simp
  have "\<exists>ok n'. read (traced T) e \<lparr>m_Wire = (w, []), m_NunchukData = f\<rparr> = Inr (ok, n')
            \<and> length (m_NunchukData n') = 6
            \<and> length (reads_of (snd (m_Wire n'))) \<le> 6
            \<and> guarded_reads (snd (m_Wire n'))"
    using le assms loop_trace_guarded [OF lp]
    by (simp add: run reads_of_rearm)
  with read_total [OF assms, of T e w] show ?thesis
    by blast
qed

theorem read_stays_in_bounds_witness:
  "length [9, 9, 9, 9, 9, 9 :: uint8_t] = 6
   \<and> (\<exists>ok n'. read fake_wire True
                  \<lparr>m_Wire = [1, 2, 3, 4, 5, 6, 7, 8], m_NunchukData = [9, 9, 9, 9, 9, 9]\<rparr>
                = Inr (ok, n')
            \<and> length (m_NunchukData n') = 6)
   \<and> (\<exists>ok n'. read (traced fake_wire) True
                  \<lparr>m_Wire = ([1, 2, 3, 4, 5, 6, 7, 8], []), m_NunchukData = [9, 9, 9, 9, 9, 9]\<rparr>
                = Inr (ok, n')
            \<and> length (m_NunchukData n') = 6
            \<and> length (reads_of (snd (m_Wire n'))) \<le> 6
            \<and> guarded_reads (snd (m_Wire n')))"
  using read_stays_in_bounds [of "[9, 9, 9, 9, 9, 9]" fake_wire True "[1, 2, 3, 4, 5, 6, 7, 8]"]
  by simp




end
